theory Spec2Isabelle
  imports Main "HOL-Library.Word"
begin

unbundle bit_operations_syntax

section \<open>Errors raised by the codec and the generator\<close>

text \<open>
  Both modules throw plain \<open>Error\<close> objects whose message is a template literal.  An error
  value of the model keeps exactly the values the message interpolates:
  \<^item> \<open>InvalidBase62Character c\<close> is \<^verbatim>\<open>Error(`Invalid Base62 character: ${char}`)\<close>;
  \<^item> \<open>ClockMovedBackward skew\<close> is
    \<^verbatim>\<open>Error(`Clock moved backward. Refusing to generate ID for ${skew}ms`)\<close>;
  \<^item> \<open>MachineIdOutOfRange\<close> is \<^verbatim>\<open>Error(`MACHINE_ID must be between 0 and ${MAX_MACHINE_ID}`)\<close>;
  \<^item> \<open>RangeError\<close> is what the built-in \<open>BigInt()\<close> throws on a number that is not an integer.
\<close>

datatype error =
    InvalidBase62Character char
  | ClockMovedBackward int
  | MachineIdOutOfRange
  | RangeError

section \<open>Base62 codec\<close>

definition BASE62_CHARS :: string where
  "BASE62_CHARS = ''0123456789abcdefghijklmnopqrstuvwxyzABCDEFGHIJKLMNOPQRSTUVWXYZ''"

definition BASE :: int where
  "BASE = 62"

text \<open>
  \<open>encodeBase62\<close> takes a BigInt or a number holding an integer and works on
  \<open>BigInt(num)\<close>, an unbounded integer.  The loop
  \<^verbatim>\<open>while (n > 0n) { result = BASE62_CHARS[Number(n % base)] + result; n = n / base; }\<close>
  only divides positive values, where BigInt's truncating \<open>/\<close> and \<open>%\<close> agree with
  \<open>div\<close> and \<open>mod\<close>; the remainder is between 0 and 61, so the index is in range.
\<close>

function encode_loop :: "int \<Rightarrow> string \<Rightarrow> string" where
  "encode_loop n result =
     (if n > 0
      then encode_loop (n div BASE) (BASE62_CHARS ! nat (n mod BASE) # result)
      else result)"
  by pat_completeness auto
termination
  by (relation "measure (\<lambda>(n, result). nat n)") (auto simp: BASE_def)

declare encode_loop.simps [simp del]

definition encodeBase62 :: "int \<Rightarrow> string" where
  "encodeBase62 num = (if num = 0 then [BASE62_CHARS ! 0] else encode_loop num [])"

text \<open>
  \<open>String.prototype.indexOf\<close> with a one-character search string: the position of the
  first occurrence, or \<open>-1\<close>.
\<close>

fun indexOf_from :: "string \<Rightarrow> char \<Rightarrow> int \<Rightarrow> int" where
  "indexOf_from [] c i = - 1"
| "indexOf_from (x # xs) c i = (if x = c then i else indexOf_from xs c (i + 1))"

definition indexOf :: "string \<Rightarrow> char \<Rightarrow> int" where
  "indexOf s c = indexOf_from s c 0"

text \<open>
  The \<open>for\<close> loop of \<open>decodeBase62\<close>, with the accumulator \<open>num\<close>; the \<open>throw\<close> leaves
  the loop with the offending character.  A \<open>string\<close> holds the code units of the
  JavaScript string; the alphabet is ASCII, so any other code unit is outside it.
\<close>

fun decode_loop :: "string \<Rightarrow> int \<Rightarrow> error + int" where
  "decode_loop [] num = Inr num"
| "decode_loop (char # rest) num =
     (let charIndex = indexOf BASE62_CHARS char
      in if charIndex = - 1 then Inl (InvalidBase62Character char)
         else decode_loop rest (num * BASE + charIndex))"

definition decodeBase62 :: "string \<Rightarrow> error + int" where
  "decodeBase62 str = decode_loop str 0"

section \<open>Snowflake identifier generator\<close>

subsection \<open>Constants\<close>

definition MACHINE_ID_BITS :: nat where
  "MACHINE_ID_BITS = 10"

definition SEQUENCE_BITS :: nat where
  "SEQUENCE_BITS = 12"

definition MAX_MACHINE_ID :: int where
  "MAX_MACHINE_ID = push_bit MACHINE_ID_BITS 1 - 1"

definition MAX_SEQUENCE :: int where
  "MAX_SEQUENCE = push_bit SEQUENCE_BITS 1 - 1"

text \<open>\<^verbatim>\<open>new Date('2020-01-01T00:00:00Z').getTime()\<close>, in milliseconds.\<close>

definition EPOCH :: int where
  "EPOCH = 1577836800000"

subsection \<open>JavaScript numbers and built-ins used by \<open>getMachineId\<close>\<close>

text \<open>
  \<open>parseInt\<close> returns an integer-valued number or \<open>NaN\<close>.  Every comparison with \<open>NaN\<close>
  is false.
\<close>

datatype number = Num int | NaN

fun number_less :: "number \<Rightarrow> int \<Rightarrow> bool" where
  "number_less (Num i) k = (i < k)"
| "number_less NaN k = False"

fun number_greater :: "number \<Rightarrow> int \<Rightarrow> bool" where
  "number_greater (Num i) k = (i > k)"
| "number_greater NaN k = False"

text \<open>
  The built-in \<open>parseInt(string, 10)\<close> of ECMAScript: leading white space is skipped, an
  optional sign is read, then the longest prefix of decimal digits; without a digit the
  result is \<open>NaN\<close>.  The characters of a \<open>string\<close> are the code units below 256.  The
  built-in rounds a long digit string to a double; the rounding is monotone and leaves 0
  to 1023 alone, so it changes neither the range test of \<open>getMachineId\<close> nor a value that
  passes it, and the model keeps the exact integer.
\<close>

definition isWhiteSpace :: "char \<Rightarrow> bool" where
  "isWhiteSpace c = ((of_char c :: nat) \<in> {9, 10, 11, 12, 13, 32, 160})"

definition isDigit :: "char \<Rightarrow> bool" where
  "isDigit c = (48 \<le> (of_char c :: nat) \<and> (of_char c :: nat) \<le> 57)"

fun digits_value :: "string \<Rightarrow> int \<Rightarrow> int" where
  "digits_value [] acc = acc"
| "digits_value (c # cs) acc = digits_value cs (acc * 10 + (of_char c - 48))"

definition parseInt :: "string \<Rightarrow> number" where
  "parseInt str =
     (let S = dropWhile isWhiteSpace str;
          sign = (if S \<noteq> [] \<and> hd S = CHR ''-'' then - 1 else 1);
          S = (if S \<noteq> [] \<and> (hd S = CHR ''+'' \<or> hd S = CHR ''-'') then tl S else S);
          Z = takeWhile isDigit S
      in if Z = [] then NaN else Num (sign * digits_value Z 0))"

text \<open>
  \<open>ToInt32\<close>, and the 32-bit operators \<open><<\<close> and \<open>&\<close>, which apply it to their operands
  and give a signed 32-bit result.
\<close>

definition ToInt32 :: "int \<Rightarrow> int" where
  "ToInt32 x = signed_take_bit 31 x"

definition int32_shl :: "int \<Rightarrow> nat \<Rightarrow> int" where
  "int32_shl x n = ToInt32 (push_bit n (ToInt32 x))"

definition int32_and :: "int \<Rightarrow> int \<Rightarrow> int" where
  "int32_and x y = ToInt32 x AND ToInt32 y"

subsection \<open>Node identifier\<close>

text \<open>
  The loop of \<open>getMachineId\<close> over the code units of the host name:
  \<^verbatim>\<open>hash = ((hash << 5) - hash) + char; hash = hash & hash;\<close>
\<close>

fun hostname_hash :: "string \<Rightarrow> int \<Rightarrow> int" where
  "hostname_hash [] hash = hash"
| "hostname_hash (c # cs) hash =
     (let char = of_char c;
          hash = (int32_shl hash 5 - hash) + char;
          hash = int32_and hash hash
      in hostname_hash cs hash)"

text \<open>
  \<open>getMachineId\<close> reads \<open>process.env.MACHINE_ID\<close> (\<open>None\<close> when undefined) and
  \<open>os.hostname()\<close>.
\<close>

definition getMachineId :: "string option \<Rightarrow> string \<Rightarrow> error + number" where
  "getMachineId env_MACHINE_ID hostname =
     (case env_MACHINE_ID of
        Some v \<Rightarrow>
          (let id = parseInt v
           in if number_less id 0 \<or> number_greater id MAX_MACHINE_ID
              then Inl MachineIdOutOfRange
              else Inr id)
      | None \<Rightarrow>
          (let hash = hostname_hash hostname 0
           in Inr (Num (int32_and \<bar>hash\<bar> MAX_MACHINE_ID))))"

subsection \<open>Generator state and clock\<close>

text \<open>
  The module variables \<open>sequence\<close> and \<open>lastTimestamp\<close>, initialised to 0 and \<open>-1\<close>.
\<close>

record generator =
  sequence :: int
  lastTimestamp :: int

definition initial_generator :: generator where
  "initial_generator = \<lparr>sequence = 0, lastTimestamp = - 1\<rparr>"

text \<open>
  \<open>Date.now()\<close> is an effect: a clock is the sequence of values it returns, \<open>now k\<close> for
  its \<open>k\<close>-th call, and the number of calls made so far is threaded through the functions
  that read it.
\<close>

type_synonym clock = "nat \<Rightarrow> int"

text \<open>
  The busy wait.  It may never return (a clock that stays at or below \<open>lastTimestamp\<close>),
  which is the value \<open>None\<close>.
\<close>

partial_function (option) waitNextMillis_loop ::
  "clock \<Rightarrow> nat \<Rightarrow> int \<Rightarrow> int \<Rightarrow> (int \<times> nat) option" where
  "waitNextMillis_loop now k timestamp lastTimestamp' =
     (if timestamp \<le> lastTimestamp'
      then waitNextMillis_loop now (Suc k) (now k - EPOCH) lastTimestamp'
      else Some (timestamp, k))"

declare waitNextMillis_loop.simps [code]

definition waitNextMillis :: "clock \<Rightarrow> nat \<Rightarrow> int \<Rightarrow> (int \<times> nat) option" where
  "waitNextMillis now k lastTimestamp' =
     waitNextMillis_loop now (Suc k) (now k - EPOCH) lastTimestamp'"

subsection \<open>Minting and parsing identifiers\<close>

text \<open>
  The identifier composed at the end of \<open>generateId\<close>:
  \<^verbatim>\<open>(BigInt(timestamp) << 22n) | (BigInt(machineId) << 12n) | BigInt(sequence)\<close>.
\<close>

definition snowflake :: "int \<Rightarrow> int \<Rightarrow> int \<Rightarrow> int" where
  "snowflake timestamp' machineId' sequence' =
     push_bit (MACHINE_ID_BITS + SEQUENCE_BITS) timestamp'
       OR push_bit SEQUENCE_BITS machineId' OR sequence'"

text \<open>
  \<open>generateId\<close> on the generator \<open>g\<close>, with \<open>k\<close> clock readings made before the call.  The
  result is \<open>None\<close> when the call never returns; otherwise it is the identifier or the
  thrown error, with the state and the number of readings after the call.  The sequence
  of a generator stays between 0 and 4095, where the 32-bit \<open>&\<close> is \<open>AND\<close>.
  \<open>BigInt(machineId)\<close> throws for \<open>NaN\<close>, after the state has been written.
\<close>

definition generateId ::
  "number \<Rightarrow> clock \<Rightarrow> generator \<times> nat \<Rightarrow> ((error + int) \<times> generator \<times> nat) option" where
  "generateId machineId' now = (\<lambda>(g, k).
     let timestamp = now k - EPOCH; k = Suc k
     in if timestamp < lastTimestamp g
        then Some (Inl (ClockMovedBackward (lastTimestamp g - timestamp)), g, k)
        else
          (case (if timestamp = lastTimestamp g
                 then (let sequence' = (sequence g + 1) AND MAX_SEQUENCE
                       in if sequence' = 0
                          then map_option (\<lambda>(timestamp, k). (timestamp, 0, k))
                                 (waitNextMillis now k (lastTimestamp g))
                          else Some (timestamp, sequence', k))
                 else Some (timestamp, 0, k)) of
             None \<Rightarrow> None
           | Some (timestamp, sequence', k) \<Rightarrow>
               (let g' = \<lparr>sequence = sequence', lastTimestamp = timestamp\<rparr>
                in case machineId' of
                     NaN \<Rightarrow> Some (Inl RangeError, g', k)
                   | Num m \<Rightarrow> Some (Inr (snowflake timestamp m sequence'), g', k))))"

text \<open>
  \<open>n\<close> calls one after the other from one generator, each outcome kept (the callers and
  the tests call \<open>generateId\<close> in a loop and catch what it throws).
\<close>

fun generateIds ::
  "nat \<Rightarrow> number \<Rightarrow> clock \<Rightarrow> generator \<times> nat \<Rightarrow> ((error + int) list \<times> generator \<times> nat) option" where
  "generateIds 0 machineId' now w = Some ([], w)"
| "generateIds (Suc n) machineId' now w =
     (case generateId machineId' now w of
        None \<Rightarrow> None
      | Some (r, w') \<Rightarrow> map_option (\<lambda>(rs, w''). (r # rs, w'')) (generateIds n machineId' now w'))"

text \<open>The identifiers among the outcomes, in order.\<close>

fun minted :: "(error + int) list \<Rightarrow> int list" where
  "minted [] = []"
| "minted (Inr i # rs) = i # minted rs"
| "minted (Inl e # rs) = minted rs"

text \<open>
  \<open>parseId\<close>; \<open>id_date\<close> is the instant of \<open>new Date(timestamp + EPOCH)\<close> in milliseconds.
  The fields are named \<open>timestamp\<close>, \<open>machineId\<close>, \<open>sequence\<close> and \<open>date\<close> in the source.
\<close>

record parsed_id =
  id_timestamp :: int
  id_machineId :: int
  id_sequence :: int
  id_date :: int

definition parseId :: "int \<Rightarrow> parsed_id" where
  "parseId id' =
     (let timestamp = drop_bit (MACHINE_ID_BITS + SEQUENCE_BITS) id' AND 0x1FFFFFFFFFF;
          machineId = drop_bit SEQUENCE_BITS id' AND MAX_MACHINE_ID;
          sequence' = id' AND MAX_SEQUENCE;
          date = timestamp + EPOCH
      in \<lparr>id_timestamp = timestamp, id_machineId = machineId, id_sequence = sequence',
          id_date = date\<rparr>)"

section \<open>Lemmas about the codec\<close>

lemma distinct_BASE62_CHARS: "distinct BASE62_CHARS"
  by (simp add: BASE62_CHARS_def)

lemma length_BASE62_CHARS: "length BASE62_CHARS = 62"
  by (simp add: BASE62_CHARS_def)

lemma indexOf_from_nth:
  "distinct xs \<Longrightarrow> i < length xs \<Longrightarrow> indexOf_from xs (xs ! i) k = k + int i"
proof (induction xs arbitrary: i k)
  case Nil then show ?case by simp
next
  case (Cons x xs)
  show ?case
  proof (cases i)
    case 0 then show ?thesis by simp
  next
    case (Suc j)
    with Cons.prems have "xs ! j \<in> set xs" "x \<notin> set xs" by auto
    then have "x \<noteq> xs ! j" by auto
    with Cons Suc show ?thesis by simp
  qed
qed

lemma indexOf_from_notin: "c \<notin> set xs \<Longrightarrow> indexOf_from xs c k = - 1"
  by (induction xs arbitrary: k) auto

lemma indexOf_from_in:
  "c \<in> set xs \<Longrightarrow>
     k \<le> indexOf_from xs c k \<and> indexOf_from xs c k < k + int (length xs)
     \<and> xs ! nat (indexOf_from xs c k - k) = c"
proof (induction xs arbitrary: k)
  case Nil then show ?case by simp
next
  case (Cons x xs)
  show ?case
  proof (cases "x = c")
    case True then show ?thesis by simp
  next
    case False
    with Cons.prems have "c \<in> set xs" by simp
    from Cons.IH [OF this, of "k + 1"]
    have *: "k + 1 \<le> indexOf_from xs c (k + 1)"
      "indexOf_from xs c (k + 1) < k + 1 + int (length xs)"
      "xs ! nat (indexOf_from xs c (k + 1) - (k + 1)) = c" by auto
    have "nat (indexOf_from xs c (k + 1) - k) = Suc (nat (indexOf_from xs c (k + 1) - (k + 1)))"
      using * by linarith
    with False * show ?thesis by simp
  qed
qed

lemma indexOf_digit:
  "0 \<le> d \<Longrightarrow> d < 62 \<Longrightarrow> indexOf BASE62_CHARS (BASE62_CHARS ! nat d) = d"
  using indexOf_from_nth [OF distinct_BASE62_CHARS, of "nat d" 0]
  by (simp add: indexOf_def length_BASE62_CHARS)

lemma indexOf_outside: "c \<notin> set BASE62_CHARS \<Longrightarrow> indexOf BASE62_CHARS c = - 1"
  by (simp add: indexOf_def indexOf_from_notin)

lemma indexOf_inside:
  assumes "c \<in> set BASE62_CHARS"
  shows "0 \<le> indexOf BASE62_CHARS c" and "indexOf BASE62_CHARS c < 62"
    and "BASE62_CHARS ! nat (indexOf BASE62_CHARS c) = c"
  using indexOf_from_in [OF assms, of 0]
  by (simp_all add: indexOf_def length_BASE62_CHARS)

lemma decode_loop_append:
  "decode_loop (xs @ ys) num =
     (case decode_loop xs num of Inl e \<Rightarrow> Inl e | Inr v \<Rightarrow> decode_loop ys v)"
  by (induction xs arbitrary: num) (auto simp: Let_def)

lemma encode_loop_pos:
  "0 < n \<Longrightarrow> encode_loop n acc = encode_loop (n div 62) (BASE62_CHARS ! nat (n mod 62) # acc)"
  by (subst encode_loop.simps) (simp add: BASE_def)

lemma encode_loop_nonpos: "n \<le> 0 \<Longrightarrow> encode_loop n acc = acc"
  by (subst encode_loop.simps) simp

lemma div62_smaller: "0 < n \<Longrightarrow> nat (n div 62) < nat n"
  using int_div_less_self [of n 62] by linarith

lemma encode_loop_acc: "encode_loop n acc = encode_loop n [] @ acc"
proof (induction "nat n" arbitrary: n acc rule: less_induct)
  case less
  show ?case
  proof (cases "0 < n")
    case True
    then have smaller: "nat (n div 62) < nat n" by (rule div62_smaller)
    show ?thesis
      using less [OF smaller, of "BASE62_CHARS ! nat (n mod 62) # acc"]
        less [OF smaller, of "[BASE62_CHARS ! nat (n mod 62)]"]
      by (simp add: encode_loop_pos [OF True])
  next
    case False
    then show ?thesis by (simp add: encode_loop_nonpos)
  qed
qed

lemma encode_loop_snoc:
  "0 < n \<Longrightarrow> encode_loop n [] = encode_loop (n div 62) [] @ [BASE62_CHARS ! nat (n mod 62)]"
  using encode_loop_acc [of "n div 62" "[BASE62_CHARS ! nat (n mod 62)]"]
  by (simp add: encode_loop_pos)

lemma decode_encode_loop: "0 \<le> n \<Longrightarrow> decode_loop (encode_loop n []) 0 = Inr n"
proof (induction "nat n" arbitrary: n rule: less_induct)
  case less
  show ?case
  proof (cases "0 < n")
    case True
    then have smaller: "nat (n div 62) < nat n" by (rule div62_smaller)
    have q: "0 \<le> n div 62" using True by (simp add: pos_imp_zdiv_nonneg_iff)
    have r: "0 \<le> n mod 62" "n mod 62 < 62" by simp_all
    have "decode_loop (encode_loop n []) 0
            = decode_loop [BASE62_CHARS ! nat (n mod 62)] (n div 62)"
      using less.hyps [OF smaller q] by (simp add: encode_loop_snoc [OF True] decode_loop_append)
    also have "\<dots> = Inr (n div 62 * 62 + n mod 62)"
      using indexOf_digit [OF r] r by (simp add: Let_def BASE_def)
    finally show ?thesis by simp
  next
    case False
    with less.prems have "n = 0" by simp
    then show ?thesis by (simp add: encode_loop_nonpos)
  qed
qed

lemma encode_loop_nonempty: "0 < n \<Longrightarrow> encode_loop n acc \<noteq> []"
  using encode_loop_acc [of "n div 62" "BASE62_CHARS ! nat (n mod 62) # acc"]
  by (simp add: encode_loop_pos)

lemma encodeBase62_nonempty: "0 \<le> n \<Longrightarrow> encodeBase62 n \<noteq> []"
  by (simp add: encodeBase62_def encode_loop_nonempty)

lemma encodeBase62_zero: "encodeBase62 0 = ''0''"
  by (simp add: encodeBase62_def BASE62_CHARS_def)

lemma decodeBase62_zero: "decodeBase62 ''0'' = Inr 0"
  by (simp add: decodeBase62_def indexOf_def BASE62_CHARS_def BASE_def)

lemma decodeBase62_encodeBase62: "0 \<le> n \<Longrightarrow> decodeBase62 (encodeBase62 n) = Inr n"
proof (cases "n = 0")
  case True
  then show ?thesis using decodeBase62_zero encodeBase62_zero by simp
next
  case False
  assume "0 \<le> n"
  with False show ?thesis by (simp add: decodeBase62_def encodeBase62_def decode_encode_loop)
qed


lemma decode_loop_valid:
  "set s \<subseteq> set BASE62_CHARS \<Longrightarrow> 0 \<le> num \<Longrightarrow> \<exists>n. decode_loop s num = Inr n \<and> 0 \<le> n"
proof (induction s arbitrary: num)
  case Nil
  then show ?case by simp
next
  case (Cons c s)
  then have c: "c \<in> set BASE62_CHARS" and s: "set s \<subseteq> set BASE62_CHARS" by simp_all
  have "0 \<le> num * 62 + indexOf BASE62_CHARS c"
    using indexOf_inside(1) [OF c] Cons.prems(2) by simp
  from Cons.IH [OF s this] indexOf_inside(1) [OF c] show ?case
    by (simp add: Let_def BASE_def)
qed

lemma decode_loop_invalid:
  "set pre \<subseteq> set BASE62_CHARS \<Longrightarrow> c \<notin> set BASE62_CHARS \<Longrightarrow>
     decode_loop (pre @ c # post) num = Inl (InvalidBase62Character c)"
proof (induction pre arbitrary: num)
  case Nil
  then show ?case by (simp add: indexOf_outside)
next
  case (Cons x pre)
  then have x: "x \<in> set BASE62_CHARS" by simp
  from Cons indexOf_inside(1) [OF x] show ?case by (simp add: Let_def)
qed

lemma BASE62_CHARS_first: "BASE62_CHARS ! 0 = CHR ''0''"
  by (simp add: BASE62_CHARS_def)

lemma indexOf_zero_iff:
  assumes "c \<in> set BASE62_CHARS"
  shows "indexOf BASE62_CHARS c = 0 \<longleftrightarrow> c = CHR ''0''"
proof
  assume "indexOf BASE62_CHARS c = 0"
  with indexOf_inside(3) [OF assms] show "c = CHR ''0''"
    by (simp add: BASE62_CHARS_first)
next
  assume "c = CHR ''0''"
  then show "indexOf BASE62_CHARS c = 0"
    by (simp add: indexOf_def BASE62_CHARS_def)
qed

lemma encode_loop_digit:
  "0 < d \<Longrightarrow> d < 62 \<Longrightarrow> encode_loop d [] = [BASE62_CHARS ! nat d]"
  by (simp add: encode_loop_pos encode_loop_nonpos)

lemma encode_loop_horner:
  assumes "0 < v" "0 \<le> d" "d < 62"
  shows "encode_loop (v * 62 + d) [] = encode_loop v [] @ [BASE62_CHARS ! nat d]"
proof -
  have pos: "0 < v * 62 + d" using assms by simp
  have "(v * 62 + d) div 62 = v" "(v * 62 + d) mod 62 = d" using assms by simp_all
  with encode_loop_snoc [OF pos] show ?thesis by simp
qed

text \<open>Decoding then encoding a string of alphabet characters without a leading zero.\<close>

lemma encode_decode_loop:
  "set s \<subseteq> set BASE62_CHARS \<Longrightarrow> s \<noteq> [] \<Longrightarrow> hd s \<noteq> CHR ''0'' \<Longrightarrow>
     \<exists>v. decode_loop s 0 = Inr v \<and> 0 < v \<and> encode_loop v [] = s"
proof (induction s rule: rev_induct)
  case Nil
  then show ?case by simp
next
  case (snoc c s)
  then have c: "c \<in> set BASE62_CHARS" and s: "set s \<subseteq> set BASE62_CHARS" by simp_all
  note d = indexOf_inside [OF c]
  show ?case
  proof (cases "s = []")
    case True
    with snoc.prems have "c \<noteq> CHR ''0''" by simp
    with indexOf_zero_iff [OF c] d(1) have "0 < indexOf BASE62_CHARS c" by linarith
    with True d show ?thesis
      by (simp add: Let_def BASE_def encode_loop_digit)
  next
    case False
    with snoc.prems have "hd s \<noteq> CHR ''0''" by simp
    from snoc.IH [OF s False this]
    obtain v where v: "decode_loop s 0 = Inr v" "0 < v" "encode_loop v [] = s" by blast
    have "decode_loop (s @ [c]) 0 = Inr (v * 62 + indexOf BASE62_CHARS c)"
      using v(1) d(1) by (simp add: decode_loop_append Let_def BASE_def)
    moreover have "0 < v * 62 + indexOf BASE62_CHARS c" using v(2) d(1) by simp
    moreover have "encode_loop (v * 62 + indexOf BASE62_CHARS c) [] = s @ [c]"
      using encode_loop_horner [OF v(2) d(1) d(2)] v(3) d(3) by simp
    ultimately show ?thesis by blast
  qed
qed

lemma hd_encode_loop: "0 < v \<Longrightarrow> hd (encode_loop v []) \<noteq> CHR ''0''"
proof (induction "nat v" arbitrary: v rule: less_induct)
  case less
  show ?case
  proof (cases "0 < v div 62")
    case True
    have smaller: "nat (v div 62) < nat v" using less.prems by (rule div62_smaller)
    from less.hyps [OF smaller True] encode_loop_nonempty [OF True, of "[]"]
    show ?thesis by (simp add: encode_loop_snoc [OF less.prems])
  next
    case False
    with less.prems have small: "v < 62" and z: "v div 62 = 0"
      by (simp_all add: pos_imp_zdiv_pos_iff div_pos_pos_trivial)
    then have m: "v mod 62 = v" using less.prems by simp
    have "indexOf BASE62_CHARS (BASE62_CHARS ! nat v) = v"
      using indexOf_digit [of v] less.prems small by simp
    moreover have "indexOf BASE62_CHARS (CHR ''0'') = 0"
      by (simp add: indexOf_def BASE62_CHARS_def)
    ultimately have "BASE62_CHARS ! nat v \<noteq> CHR ''0''" using less.prems by auto
    then show ?thesis
      by (simp add: encode_loop_snoc [OF less.prems] z m encode_loop_nonpos)
  qed
qed

lemma encode_decode_iff:
  assumes s: "set s \<subseteq> set BASE62_CHARS" and v: "decodeBase62 s = Inr v"
  shows "encodeBase62 v = s \<longleftrightarrow> s = ''0'' \<or> (s \<noteq> [] \<and> hd s \<noteq> CHR ''0'')"
proof
  assume e: "encodeBase62 v = s"
  from decode_loop_valid [OF s, of 0] v have nonneg: "0 \<le> v" by (simp add: decodeBase62_def)
  show "s = ''0'' \<or> (s \<noteq> [] \<and> hd s \<noteq> CHR ''0'')"
  proof (cases "v = 0")
    case True
    with e encodeBase62_zero show ?thesis by simp
  next
    case False
    with nonneg have pos: "0 < v" by simp
    with e hd_encode_loop [OF pos] encode_loop_nonempty [OF pos, of "[]"]
    show ?thesis by (auto simp: encodeBase62_def)
  qed
next
  assume "s = ''0'' \<or> (s \<noteq> [] \<and> hd s \<noteq> CHR ''0'')"
  then show "encodeBase62 v = s"
  proof
    assume "s = ''0''"
    with v decodeBase62_zero encodeBase62_zero show ?thesis by simp
  next
    assume "s \<noteq> [] \<and> hd s \<noteq> CHR ''0''"
    with encode_decode_loop [OF s] v
    obtain w where "decode_loop s 0 = Inr w" "0 < w" "encode_loop w [] = s" by blast
    with v show ?thesis by (simp add: decodeBase62_def encodeBase62_def)
  qed
qed

section \<open>Properties of the codec\<close>

text \<open>
  C1.  Decoding an encoded non-negative integer gives the integer back, for every
  non-negative integer (the integers are BigInts, so the bound \<open>2^64 - 1\<close> of the claim is
  not needed), and therefore two non-negative integers with the same encoding are equal.
\<close>

theorem base62_roundtrip_injective:
  "0 \<le> n \<Longrightarrow>
     decodeBase62 (encodeBase62 n) = Inr n
     \<and> (\<forall>m. 0 \<le> m \<longrightarrow> encodeBase62 m = encodeBase62 n \<longrightarrow> m = n)"
proof
  assume n: "0 \<le> n"
  then show "decodeBase62 (encodeBase62 n) = Inr n" by (rule decodeBase62_encodeBase62)
  show "\<forall>m. 0 \<le> m \<longrightarrow> encodeBase62 m = encodeBase62 n \<longrightarrow> m = n"
  proof (intro allI impI)
    fix m :: int
    assume m: "0 \<le> m" and eq: "encodeBase62 m = encodeBase62 n"
    have "Inr m = decodeBase62 (encodeBase62 m)"
      using decodeBase62_encodeBase62 [OF m] by simp
    also have "\<dots> = Inr n"
      using decodeBase62_encodeBase62 [OF n] eq by simp
    finally show "m = n" by simp
  qed
qed

theorem base62_roundtrip_injective_witness:
  "(0::int) \<le> 18446744073709551615
   \<and> decodeBase62 (encodeBase62 18446744073709551615) = Inr 18446744073709551615
   \<and> encodeBase62 62 \<noteq> encodeBase62 18446744073709551615"
proof -
  have h: "(0::int) \<le> 18446744073709551615" by simp
  from base62_roundtrip_injective [OF h]
  have rt: "decodeBase62 (encodeBase62 18446744073709551615) = Inr 18446744073709551615"
    and inj: "(0::int) \<le> 62 \<longrightarrow> encodeBase62 62 = encodeBase62 18446744073709551615
                \<longrightarrow> (62::int) = 18446744073709551615"
    by blast+
  from inj have "encodeBase62 62 \<noteq> encodeBase62 18446744073709551615" by simp
  with h rt show ?thesis by simp
qed

text \<open>
  C7.  \<open>encodeBase62 0\<close> is the one-character string made of the first alphabet character,
  \<open>"0"\<close>; no non-negative input is encoded as the empty string; \<open>decodeBase62 "0"\<close> is 0.
\<close>

theorem encodeBase62_zero_single_char:
  "encodeBase62 0 = [hd BASE62_CHARS] \<and> encodeBase62 0 = ''0''
   \<and> (\<forall>n. 0 \<le> n \<longrightarrow> encodeBase62 n \<noteq> [])
   \<and> decodeBase62 ''0'' = Inr 0"
  using encodeBase62_zero decodeBase62_zero encodeBase62_nonempty
  by (simp add: BASE62_CHARS_def)

theorem encodeBase62_zero_single_char_witness:
  "(0::int) \<le> 1000 \<and> encodeBase62 1000 \<noteq> [] \<and> encodeBase62 0 = ''0''
   \<and> decodeBase62 ''0'' = Inr 0"
proof -
  from encodeBase62_zero_single_char
  have "encodeBase62 0 = ''0''" and "decodeBase62 ''0'' = Inr 0"
    and "(0::int) \<le> 1000 \<longrightarrow> encodeBase62 1000 \<noteq> []"
    by blast+
  then show ?thesis by simp
qed

text \<open>
  C9.  \<open>decodeBase62\<close> of the empty string returns 0 and raises nothing, although the
  empty string is never produced by \<open>encodeBase62\<close> on the integers the codec encodes,
  the non-negative ones.
\<close>

theorem decodeBase62_empty:
  "decodeBase62 [] = Inr 0 \<and> (\<forall>n. 0 \<le> n \<longrightarrow> encodeBase62 n \<noteq> [])"
  using encodeBase62_nonempty by (simp add: decodeBase62_def)

theorem decodeBase62_empty_witness:
  "decodeBase62 [] = Inr 0 \<and> (0::int) \<le> 7 \<and> encodeBase62 7 \<noteq> []"
proof -
  from decodeBase62_empty have "decodeBase62 [] = Inr 0"
    and "(0::int) \<le> 7 \<longrightarrow> encodeBase62 7 \<noteq> []"
    by blast+
  then show ?thesis by simp
qed

text \<open>
  C10.  \<open>decodeBase62\<close> is not injective on strings of alphabet characters: \<open>"0"\<close> and
  \<open>"00"\<close> both decode to 0, so encoding the decoded \<open>"00"\<close> does not give \<open>"00"\<close> back.
  For a string \<open>s\<close> of alphabet characters, \<open>encodeBase62 (decodeBase62 s) = s\<close> holds
  exactly when \<open>s\<close> is \<open>"0"\<close> or is non-empty without a leading \<open>0\<close>.
\<close>

theorem decodeBase62_not_injective:
  "set ''0'' \<subseteq> set BASE62_CHARS \<and> set ''00'' \<subseteq> set BASE62_CHARS
   \<and> ''0'' \<noteq> ''00''
   \<and> decodeBase62 ''0'' = Inr 0 \<and> decodeBase62 ''00'' = Inr 0
   \<and> encodeBase62 0 \<noteq> ''00''
   \<and> \<not> inj_on decodeBase62 {s. set s \<subseteq> set BASE62_CHARS}
   \<and> (\<forall>s v. set s \<subseteq> set BASE62_CHARS \<longrightarrow> decodeBase62 s = Inr v \<longrightarrow>
         (encodeBase62 v = s \<longleftrightarrow> s = ''0'' \<or> (s \<noteq> [] \<and> hd s \<noteq> CHR ''0'')))"
proof -
  have a: "set ''0'' \<subseteq> set BASE62_CHARS" and b: "set ''00'' \<subseteq> set BASE62_CHARS"
    by (simp_all add: BASE62_CHARS_def)
  have c: "decodeBase62 ''00'' = Inr 0"
    by (simp add: decodeBase62_def indexOf_def BASE62_CHARS_def BASE_def)
  have d: "encodeBase62 0 \<noteq> ''00''" by (simp add: encodeBase62_zero)
  have "\<not> inj_on decodeBase62 {s. set s \<subseteq> set BASE62_CHARS}"
  proof
    assume "inj_on decodeBase62 {s. set s \<subseteq> set BASE62_CHARS}"
    from inj_onD [OF this, of "''0''" "''00''"] a b c decodeBase62_zero
    show False by simp
  qed
  with a b c d decodeBase62_zero encode_decode_iff show ?thesis by simp
qed

theorem decodeBase62_not_injective_witness:
  "set ''g8'' \<subseteq> set BASE62_CHARS \<and> decodeBase62 ''g8'' = Inr 1000
   \<and> encodeBase62 1000 = ''g8''
   \<and> set ''0g8'' \<subseteq> set BASE62_CHARS \<and> decodeBase62 ''0g8'' = Inr 1000
   \<and> encodeBase62 1000 \<noteq> ''0g8''"
proof -
  have a: "set ''g8'' \<subseteq> set BASE62_CHARS" and b: "set ''0g8'' \<subseteq> set BASE62_CHARS"
    by (simp_all add: BASE62_CHARS_def)
  have c: "decodeBase62 ''g8'' = Inr 1000" and d: "decodeBase62 ''0g8'' = Inr 1000"
    by (simp_all add: decodeBase62_def indexOf_def BASE62_CHARS_def BASE_def)
  from decodeBase62_not_injective
  have iff: "\<And>s v. set s \<subseteq> set BASE62_CHARS \<Longrightarrow> decodeBase62 s = Inr v \<Longrightarrow>
         (encodeBase62 v = s \<longleftrightarrow> s = ''0'' \<or> (s \<noteq> [] \<and> hd s \<noteq> CHR ''0''))"
    by blast
  from iff [OF a c] iff [OF b d] a b c d show ?thesis by simp
qed

text \<open>
  C6, as the code has it.  When a string has a character outside the alphabet,
  \<open>decodeBase62\<close> fails at the first such character and the error carries that character
  (and nothing else: the message interpolates only \<open>char\<close>); it never returns a number for
  such a string.  A string of alphabet characters only is decoded to a non-negative
  integer.
\<close>

theorem decodeBase62_rejects_first_bad_character:
  "(\<forall>pre c post. set pre \<subseteq> set BASE62_CHARS \<longrightarrow> c \<notin> set BASE62_CHARS \<longrightarrow>
        decodeBase62 (pre @ c # post) = Inl (InvalidBase62Character c))
   \<and> (\<forall>s. set s \<subseteq> set BASE62_CHARS \<longrightarrow> (\<exists>n. decodeBase62 s = Inr n \<and> 0 \<le> n))"
  using decode_loop_invalid decode_loop_valid [of _ 0]
  by (simp add: decodeBase62_def)

theorem decodeBase62_rejects_first_bad_character_witness:
  "set ''abc'' \<subseteq> set BASE62_CHARS \<and> CHR ''!'' \<notin> set BASE62_CHARS
   \<and> decodeBase62 ''abc!def'' = Inl (InvalidBase62Character CHR ''!'')
   \<and> set ''g8'' \<subseteq> set BASE62_CHARS \<and> (\<exists>n. decodeBase62 ''g8'' = Inr n \<and> 0 \<le> n)"
proof -
  have a: "set ''abc'' \<subseteq> set BASE62_CHARS" and b: "CHR ''!'' \<notin> set BASE62_CHARS"
    and c: "set ''g8'' \<subseteq> set BASE62_CHARS"
    by (simp_all add: BASE62_CHARS_def)
  from decodeBase62_rejects_first_bad_character
  have "decodeBase62 (''abc'' @ CHR ''!'' # ''def'') = Inl (InvalidBase62Character CHR ''!'')"
    and "\<exists>n. decodeBase62 ''g8'' = Inr n \<and> 0 \<le> n"
    using a b c by blast+
  with a b c show ?thesis by simp
qed

text \<open>
  C6, as the claim states it, asks that the error identify the position of the offending
  character too.  It does not: an offending character at position 0 and the same
  character at position 1 raise the same error.
\<close>

theorem decodeBase62_error_has_no_position:
  "decodeBase62 ''!0'' = Inl (InvalidBase62Character CHR ''!'')
   \<and> decodeBase62 ''0!'' = Inl (InvalidBase62Character CHR ''!'')"
  by (simp add: decodeBase62_def indexOf_def BASE62_CHARS_def BASE_def)

section \<open>Lemmas about the generator\<close>

lemma MAX_SEQUENCE_mask: "MAX_SEQUENCE = mask 12"
  by (simp add: MAX_SEQUENCE_def SEQUENCE_BITS_def mask_eq_exp_minus_1)

lemma MAX_MACHINE_ID_mask: "MAX_MACHINE_ID = mask 10"
  by (simp add: MAX_MACHINE_ID_def MACHINE_ID_BITS_def mask_eq_exp_minus_1)

lemma timestamp_mask: "(0x1FFFFFFFFFF :: int) = mask 41"
  by (simp add: mask_eq_exp_minus_1)

lemma MAX_values: "MAX_SEQUENCE = 4095" "MAX_MACHINE_ID = 1023"
  by (simp_all add: MAX_SEQUENCE_def SEQUENCE_BITS_def MAX_MACHINE_ID_def MACHINE_ID_BITS_def)

text \<open>The three fields of an identifier do not overlap, so the bitwise OR is a sum.\<close>

lemma snowflake_take_bit:
  "snowflake t (take_bit 10 m) (take_bit 12 s) = t * 2 ^ 22 + take_bit 10 m * 2 ^ 12 + take_bit 12 s"
proof -
  have a: "push_bit 12 (take_bit 10 m) AND take_bit 12 s = (0::int)"
    by (rule bit_eqI) (auto simp: bit_simps)
  have b: "push_bit 22 t AND (push_bit 12 (take_bit 10 m) + take_bit 12 s) = (0::int)"
    unfolding disjunctive_add_eq_or [OF a]
    by (rule bit_eqI) (auto simp: bit_simps)
  have "snowflake t (take_bit 10 m) (take_bit 12 s)
          = push_bit 22 t OR (push_bit 12 (take_bit 10 m) OR take_bit 12 s)"
    by (simp add: snowflake_def MACHINE_ID_BITS_def SEQUENCE_BITS_def or.assoc)
  also have "\<dots> = push_bit 22 t + (push_bit 12 (take_bit 10 m) + take_bit 12 s)"
    using disjunctive_add_eq_or [OF a] disjunctive_add_eq_or [OF b] by simp
  finally show ?thesis by (simp add: push_bit_eq_mult)
qed

lemma snowflake_sum:
  assumes "0 \<le> m" "m \<le> 1023" "0 \<le> s" "s \<le> 4095"
  shows "snowflake t m s = t * 2 ^ 22 + m * 2 ^ 12 + s"
proof -
  have "take_bit 10 m = m" "take_bit 12 s = s"
    using assms by (simp_all add: take_bit_int_eq_self)
  with snowflake_take_bit [of t m s] show ?thesis by simp
qed

lemma parseId_sum:
  assumes "0 \<le> t" "t < 2 ^ 41" "0 \<le> m" "m \<le> 1023" "0 \<le> s" "s \<le> 4095"
  shows "parseId (t * 2 ^ 22 + m * 2 ^ 12 + s)
           = \<lparr>id_timestamp = t, id_machineId = m, id_sequence = s, id_date = t + EPOCH\<rparr>"
proof -
  let ?i = "t * 2 ^ 22 + m * 2 ^ 12 + s"
  have s: "?i AND MAX_SEQUENCE = s"
  proof -
    have "?i = (t * 2 ^ 10 + m) * 2 ^ 12 + s" by simp
    then have "?i mod 2 ^ 12 = s" using assms by (simp only: mod_mult_self3) simp
    then show ?thesis by (simp add: MAX_SEQUENCE_mask flip: take_bit_eq_mask add: take_bit_eq_mod)
  qed
  have d12: "?i div 2 ^ 12 = t * 2 ^ 10 + m"
  proof -
    have "?i = (t * 2 ^ 10 + m) * 2 ^ 12 + s" by simp
    then show ?thesis using assms by (simp only: div_mult_self3) simp
  qed
  have m: "drop_bit SEQUENCE_BITS ?i AND MAX_MACHINE_ID = m"
  proof -
    have "(t * 2 ^ 10 + m) mod 2 ^ 10 = m" using assms by simp
    with d12 show ?thesis
      by (simp add: SEQUENCE_BITS_def MAX_MACHINE_ID_mask drop_bit_eq_div
          flip: take_bit_eq_mask add: take_bit_eq_mod)
  qed
  have t: "drop_bit (MACHINE_ID_BITS + SEQUENCE_BITS) ?i AND 0x1FFFFFFFFFF = t"
  proof -
    have "?i = t * 2 ^ 22 + (m * 2 ^ 12 + s)" by simp
    moreover have "0 \<le> m * 2 ^ 12 + s" "m * 2 ^ 12 + s < 2 ^ 22" using assms by simp_all
    ultimately have "?i div 2 ^ 22 = t" by (simp only: div_mult_self3) simp
    moreover have "t mod 2 ^ 41 = t" using assms by simp
    ultimately show ?thesis
      by (simp only: MACHINE_ID_BITS_def SEQUENCE_BITS_def timestamp_mask drop_bit_eq_div
          flip: take_bit_eq_mask) (simp add: take_bit_eq_mod)
  qed
  show ?thesis unfolding parseId_def Let_def s m t ..
qed

lemma wait_loop_done:
  "lastTimestamp' < timestamp \<Longrightarrow>
     waitNextMillis_loop now k timestamp lastTimestamp' = Some (timestamp, k)"
  by (subst waitNextMillis_loop.simps) simp

lemma wait_loop_again:
  "timestamp \<le> lastTimestamp' \<Longrightarrow>
     waitNextMillis_loop now k timestamp lastTimestamp'
       = waitNextMillis_loop now (Suc k) (now k - EPOCH) lastTimestamp'"
  by (subst waitNextMillis_loop.simps) simp

lemma wait_loop_result:
  "waitNextMillis_loop now k timestamp lastTimestamp' = Some y \<Longrightarrow> lastTimestamp' < fst y"
proof (induction rule: waitNextMillis_loop.raw_induct [rotated 1, consumes 1])
  case (1 loop now k timestamp lastTimestamp' y)
  then show ?case by (auto split: if_splits)
qed

lemma wait_loop_finds:
  assumes "k \<le> r" "\<forall>j. k \<le> j \<and> j < r \<longrightarrow> now j - EPOCH \<le> lastTimestamp'"
    and "lastTimestamp' < now r - EPOCH" and "timestamp \<le> lastTimestamp'"
  shows "waitNextMillis_loop now k timestamp lastTimestamp' = Some (now r - EPOCH, Suc r)"
  using assms
proof (induction "r - k" arbitrary: k timestamp)
  case 0
  then have "k = r" by simp
  with 0 show ?case by (simp add: wait_loop_again wait_loop_done)
next
  case (Suc d)
  then have "k < r" by simp
  with Suc.prems have here: "now k - EPOCH \<le> lastTimestamp'" by simp
  have "waitNextMillis_loop now (Suc k) (now k - EPOCH) lastTimestamp'
          = Some (now r - EPOCH, Suc r)"
    using Suc.hyps(2) Suc.prems \<open>k < r\<close> here by (intro Suc.hyps(1)) auto
  with Suc.prems(4) show ?case by (simp add: wait_loop_again)
qed

lemma waitNextMillis_finds:
  assumes "k \<le> r" "\<forall>j. k \<le> j \<and> j < r \<longrightarrow> now j - EPOCH \<le> lastTimestamp'"
    and "lastTimestamp' < now r - EPOCH"
  shows "waitNextMillis now k lastTimestamp' = Some (now r - EPOCH, Suc r)"
proof (cases "k = r")
  case True
  with assms show ?thesis by (simp add: waitNextMillis_def wait_loop_done)
next
  case False
  with assms have "Suc k \<le> r" "now k - EPOCH \<le> lastTimestamp'" by simp_all
  with assms show ?thesis
    unfolding waitNextMillis_def by (intro wait_loop_finds) auto
qed

lemma waitNextMillis_result:
  "waitNextMillis now k lastTimestamp' = Some (t, k') \<Longrightarrow> lastTimestamp' < t"
  using wait_loop_result [of now "Suc k" "now k - EPOCH" lastTimestamp' "(t, k')"]
  by (simp add: waitNextMillis_def)

lemma next_sequence: "(s + 1) AND MAX_SEQUENCE = (s + 1) mod 4096"
  by (simp add: MAX_SEQUENCE_mask take_bit_eq_mod flip: take_bit_eq_mask)

lemma generateId_skew:
  "now k - EPOCH < lastTimestamp g \<Longrightarrow>
     generateId machineId' now (g, k)
       = Some (Inl (ClockMovedBackward (lastTimestamp g - (now k - EPOCH))), g, Suc k)"
  by (simp add: generateId_def Let_def)

lemma generateId_new_millisecond:
  "lastTimestamp g < now k - EPOCH \<Longrightarrow>
     generateId (Num m) now (g, k)
       = Some (Inr (snowflake (now k - EPOCH) m 0),
               \<lparr>sequence = 0, lastTimestamp = now k - EPOCH\<rparr>, Suc k)"
  by (simp add: generateId_def Let_def)

lemma generateId_same_millisecond:
  "now k - EPOCH = lastTimestamp g \<Longrightarrow> (sequence g + 1) mod 4096 \<noteq> 0 \<Longrightarrow>
     generateId (Num m) now (g, k)
       = Some (Inr (snowflake (lastTimestamp g) m ((sequence g + 1) mod 4096)),
               \<lparr>sequence = (sequence g + 1) mod 4096, lastTimestamp = lastTimestamp g\<rparr>, Suc k)"
  by (simp add: generateId_def Let_def next_sequence)

lemma generateId_exhausted:
  "now k - EPOCH = lastTimestamp g \<Longrightarrow> (sequence g + 1) mod 4096 = 0 \<Longrightarrow>
     generateId (Num m) now (g, k)
       = (case waitNextMillis now (Suc k) (lastTimestamp g) of
            None \<Rightarrow> None
          | Some (t, k') \<Rightarrow>
              Some (Inr (snowflake t m 0), \<lparr>sequence = 0, lastTimestamp = t\<rparr>, k'))"
  by (simp add: generateId_def Let_def next_sequence split: option.splits)

lemma snowflake_less:
  assumes "0 \<le> m" "m \<le> 1023" "0 \<le> s" "s \<le> 4095" "0 \<le> s'" "s' \<le> 4095"
    and "t < t' \<or> (t = t' \<and> s < s')"
  shows "snowflake t m s < snowflake t' m s'"
proof -
  from assms(7) have "t * 2 ^ 22 + s < t' * 2 ^ 22 + s'"
    using assms(3-6) by auto
  then show ?thesis using assms(1-6) by (simp add: snowflake_sum)
qed

text \<open>One call: a failure leaves the state alone, a success moves it strictly forward.\<close>

lemma generateId_step:
  assumes "0 \<le> m" "m \<le> 1023" "0 \<le> sequence g" "sequence g \<le> 4095"
    and "generateId (Num m) now (g, k) = Some (r, g', k')"
  shows "(\<exists>e. r = Inl e \<and> g' = g)
       \<or> (r = Inr (snowflake (lastTimestamp g') m (sequence g'))
          \<and> 0 \<le> sequence g' \<and> sequence g' \<le> 4095
          \<and> snowflake (lastTimestamp g) m (sequence g)
              < snowflake (lastTimestamp g') m (sequence g'))"
proof -
  consider (skew) "now k - EPOCH < lastTimestamp g"
    | (new) "lastTimestamp g < now k - EPOCH"
    | (same) "now k - EPOCH = lastTimestamp g" "(sequence g + 1) mod 4096 \<noteq> 0"
    | (wrap) "now k - EPOCH = lastTimestamp g" "(sequence g + 1) mod 4096 = 0"
    by linarith
  then show ?thesis
  proof cases
    case skew
    with assms(5) show ?thesis by (auto simp: generateId_skew)
  next
    case new
    with assms(5) have g': "g' = \<lparr>sequence = 0, lastTimestamp = now k - EPOCH\<rparr>"
      and r: "r = Inr (snowflake (now k - EPOCH) m 0)"
      by (simp_all add: generateId_new_millisecond)
    have "snowflake (lastTimestamp g) m (sequence g) < snowflake (now k - EPOCH) m 0"
      using assms(1-4) new by (intro snowflake_less) auto
    with g' r show ?thesis by simp
  next
    case same
    have "sequence g \<noteq> 4095"
    proof
      assume "sequence g = 4095"
      with same(2) show False by simp
    qed
    with assms(3,4) have nxt: "(sequence g + 1) mod 4096 = sequence g + 1" "sequence g + 1 \<le> 4095"
      by simp_all
    from assms(5) same nxt
    have g': "g' = \<lparr>sequence = sequence g + 1, lastTimestamp = lastTimestamp g\<rparr>"
      and r: "r = Inr (snowflake (lastTimestamp g) m (sequence g + 1))"
      by (simp_all add: generateId_same_millisecond)
    have "snowflake (lastTimestamp g) m (sequence g) < snowflake (lastTimestamp g) m (sequence g + 1)"
      using assms(1-4) nxt by (intro snowflake_less) auto
    with g' r assms(3) nxt show ?thesis by simp
  next
    case wrap
    with assms(5) obtain t where w: "waitNextMillis now (Suc k) (lastTimestamp g) = Some (t, k')"
      and g': "g' = \<lparr>sequence = 0, lastTimestamp = t\<rparr>"
      and r: "r = Inr (snowflake t m 0)"
      by (auto simp: generateId_exhausted split: option.splits)
    from waitNextMillis_result [OF w] have "lastTimestamp g < t" .
    then have "snowflake (lastTimestamp g) m (sequence g) < snowflake t m 0"
      using assms(1-4) by (intro snowflake_less) auto
    with g' r show ?thesis by simp
  qed
qed

lemma generateIds_increasing:
  assumes "0 \<le> m" "m \<le> 1023"
  shows "0 \<le> sequence g \<Longrightarrow> sequence g \<le> 4095 \<Longrightarrow>
     generateIds n (Num m) now (g, k) = Some (rs, w) \<Longrightarrow>
     sorted_wrt (<) (minted rs)
     \<and> (\<forall>i \<in> set (minted rs). snowflake (lastTimestamp g) m (sequence g) < i)"
proof (induction n arbitrary: g k rs)
  case 0
  then show ?case by simp
next
  case (Suc n)
  from Suc.prems(3) obtain r g' k' rs' where
    call: "generateId (Num m) now (g, k) = Some (r, g', k')"
    and rest: "generateIds n (Num m) now (g', k') = Some (rs', w)"
    and rs: "rs = r # rs'"
    by (auto split: option.splits)
  from generateId_step [OF assms Suc.prems(1,2) call]
  show ?case
  proof
    assume "\<exists>e. r = Inl e \<and> g' = g"
    then obtain e where "r = Inl e" "g' = g" by blast
    with Suc.IH [OF Suc.prems(1,2)] rest rs show ?thesis by simp
  next
    assume ok: "r = Inr (snowflake (lastTimestamp g') m (sequence g'))
          \<and> 0 \<le> sequence g' \<and> sequence g' \<le> 4095
          \<and> snowflake (lastTimestamp g) m (sequence g)
              < snowflake (lastTimestamp g') m (sequence g')"
    then have "sorted_wrt (<) (minted rs')
       \<and> (\<forall>i \<in> set (minted rs'). snowflake (lastTimestamp g') m (sequence g') < i)"
      using Suc.IH [OF _ _ rest] by blast
    with ok rs show ?thesis by fastforce
  qed
qed

lemma snowflake_eval:
  "snowflake (numeral a) (numeral b) 0 = push_bit 22 (numeral a) OR push_bit 12 (numeral b)"
  "snowflake (numeral a) (numeral b) 1 = push_bit 22 (numeral a) OR push_bit 12 (numeral b) OR 1"
  "snowflake (numeral a) (numeral b) (numeral c)
     = push_bit 22 (numeral a) OR push_bit 12 (numeral b) OR numeral c"
  by (simp_all add: snowflake_def MACHINE_ID_BITS_def SEQUENCE_BITS_def)

lemma clock_run:
  "generateIds 4 (Num 3) (\<lambda>k. if k < 3 then EPOCH + 5 else EPOCH + 7) (initial_generator, 0)
     = Some ([Inr 20983808, Inr 20983809, Inr 20983810, Inr 29372416],
             \<lparr>sequence = 0, lastTimestamp = 7\<rparr>, 4)"
proof -
  have four: "(4::nat) = Suc (Suc (Suc (Suc 0)))" by simp
  show ?thesis
    unfolding four
    by (simp add: generateId_new_millisecond generateId_same_millisecond
      initial_generator_def snowflake_eval)
qed

lemma parseId_snowflake_fields:
  assumes "0 \<le> t" "t < 2 ^ 41" "0 \<le> m" "m \<le> 1023" "0 \<le> s" "s \<le> 4095"
  shows "parseId (snowflake t m s)
        = \<lparr>id_timestamp = t, id_machineId = m, id_sequence = s, id_date = t + EPOCH\<rparr>"
  unfolding snowflake_sum [OF assms(3-6)] using assms by (rule parseId_sum)

lemma snowflake_inject:
  assumes "0 \<le> t" "t < 2 ^ 41" "0 \<le> m" "m \<le> 1023" "0 \<le> s" "s \<le> 4095"
    and "0 \<le> t'" "t' < 2 ^ 41" "0 \<le> m'" "m' \<le> 1023" "0 \<le> s'" "s' \<le> 4095"
    and eq: "snowflake t' m' s' = snowflake t m s"
  shows "t' = t \<and> m' = m \<and> s' = s"
proof -
  have "parseId (snowflake t' m' s') = parseId (snowflake t m s)"
    by (simp only: eq)
  then have "\<lparr>id_timestamp = t', id_machineId = m', id_sequence = s', id_date = t' + EPOCH\<rparr>
      = \<lparr>id_timestamp = t, id_machineId = m, id_sequence = s, id_date = t + EPOCH\<rparr>"
    by (simp only: parseId_snowflake_fields [OF assms(1-6)]
        parseId_snowflake_fields [OF assms(7-12)])
  then show ?thesis by simp
qed

lemma int32_and_range:
  "0 \<le> int32_and x MAX_MACHINE_ID \<and> int32_and x MAX_MACHINE_ID \<le> 1023"
proof -
  have "ToInt32 MAX_MACHINE_ID = 1023"
    by (simp add: ToInt32_def MAX_values)
  then show ?thesis by (simp add: int32_and_def)
qed

lemma getMachineId_fallback:
  "\<exists>i. getMachineId None hostname = Inr (Num i) \<and> 0 \<le> i \<and> i \<le> 1023"
  using int32_and_range [of "\<bar>hostname_hash hostname 0\<bar>"]
  by (simp add: getMachineId_def Let_def)

lemma getMachineId_explicit:
  "parseInt v = Num i \<Longrightarrow>
     getMachineId (Some v) hostname
       = (if i < 0 \<or> 1023 < i then Inl MachineIdOutOfRange else Inr (Num i))"
  by (simp add: getMachineId_def Let_def MAX_values)

lemma generateIds_append:
  "generateIds (a + b) machineId' now w =
     (case generateIds a machineId' now w of
        None \<Rightarrow> None
      | Some (rs, w') \<Rightarrow>
          map_option (\<lambda>(rs', w''). (rs @ rs', w'')) (generateIds b machineId' now w'))"
proof (induction a arbitrary: w)
  case 0
  show ?case by (simp add: option.map_ident split_def)
next
  case (Suc a)
  show ?case
    by (simp add: Suc option.map_comp comp_def split_def split: option.splits)
qed

text \<open>Calls within the millisecond of the last identifier, before the sequence runs out.\<close>

lemma same_millisecond_run:
  assumes "0 \<le> s" "s + int n \<le> 4095"
    and "\<forall>j. k \<le> j \<and> j < k + n \<longrightarrow> now j - EPOCH = T"
  shows "generateIds n (Num m) now (\<lparr>sequence = s, lastTimestamp = T\<rparr>, k)
           = Some (map (\<lambda>i. Inr (snowflake T m (s + 1 + int i))) [0..<n],
                   \<lparr>sequence = s + int n, lastTimestamp = T\<rparr>, k + n)"
  using assms
proof (induction n arbitrary: s k)
  case 0
  then show ?case by simp
next
  case (Suc n)
  from Suc.prems have here: "now k - EPOCH = T" by simp
  from Suc.prems have nxt: "(s + 1) mod 4096 = s + 1" by simp
  have call: "generateId (Num m) now (\<lparr>sequence = s, lastTimestamp = T\<rparr>, k)
      = Some (Inr (snowflake T m (s + 1)), \<lparr>sequence = s + 1, lastTimestamp = T\<rparr>, Suc k)"
    using generateId_same_millisecond [of now k "\<lparr>sequence = s, lastTimestamp = T\<rparr>" m]
      here nxt Suc.prems(1) by simp
  have rest: "generateIds n (Num m) now (\<lparr>sequence = s + 1, lastTimestamp = T\<rparr>, Suc k)
      = Some (map (\<lambda>i. Inr (snowflake T m (s + 1 + 1 + int i))) [0..<n],
              \<lparr>sequence = s + 1 + int n, lastTimestamp = T\<rparr>, Suc k + n)"
    using Suc.prems by (intro Suc.IH) auto
  have "[0..<Suc n] = 0 # map Suc [0..<n]"
    by (simp only: map_Suc_upt upt_conv_Cons [of 0 "Suc n"])
  then have "map (\<lambda>i. Inr (snowflake T m (s + 1 + int i)) :: error + int) [0..<Suc n]
      = Inr (snowflake T m (s + 1)) # map (\<lambda>i. Inr (snowflake T m (s + 1 + 1 + int i))) [0..<n]"
    by (simp only: list.map map_map comp_def) (simp add: add.commute add.left_commute)
  with call rest show ?case by (simp add: add.commute add.left_commute)
qed

lemma fixed_clock_run:
  assumes "lastTimestamp g < T" "n \<le> 4095"
    and "\<forall>j. k \<le> j \<and> j < Suc (k + n) \<longrightarrow> now j - EPOCH = T"
  shows "generateIds (Suc n) (Num m) now (g, k)
           = Some (map (\<lambda>i. Inr (snowflake T m (int i))) [0..<Suc n],
                   \<lparr>sequence = int n, lastTimestamp = T\<rparr>, Suc (k + n))"
proof -
  from assms have here: "now k - EPOCH = T" by simp
  have call: "generateId (Num m) now (g, k)
      = Some (Inr (snowflake T m 0), \<lparr>sequence = 0, lastTimestamp = T\<rparr>, Suc k)"
    using generateId_new_millisecond [of g now k m] here assms(1) by simp
  have rest: "generateIds n (Num m) now (\<lparr>sequence = 0, lastTimestamp = T\<rparr>, Suc k)
      = Some (map (\<lambda>i. Inr (snowflake T m (0 + 1 + int i))) [0..<n],
              \<lparr>sequence = 0 + int n, lastTimestamp = T\<rparr>, Suc k + n)"
    using assms by (intro same_millisecond_run) auto
  have "[0..<Suc n] = 0 # map Suc [0..<n]"
    by (simp only: map_Suc_upt upt_conv_Cons [of 0 "Suc n"])
  then have "map (\<lambda>i. Inr (snowflake T m (int i)) :: error + int) [0..<Suc n]
      = Inr (snowflake T m 0) # map (\<lambda>i. Inr (snowflake T m (0 + 1 + int i))) [0..<n]"
    by (simp only: list.map map_map comp_def) (simp add: add.commute)
  with call rest show ?thesis by simp
qed

lemma wait_loop_needs_tick:
  "waitNextMillis_loop now k timestamp lastTimestamp' = Some y \<Longrightarrow>
     lastTimestamp' < timestamp \<or> (\<exists>j\<ge>k. lastTimestamp' < now j - EPOCH)"
proof (induction rule: waitNextMillis_loop.raw_induct [rotated 1, consumes 1])
  case (1 loop now k timestamp lastTimestamp' y)
  show ?case
  proof (cases "timestamp \<le> lastTimestamp'")
    case True
    with 1 have "lastTimestamp' < now k - EPOCH \<or> (\<exists>j\<ge>Suc k. lastTimestamp' < now j - EPOCH)"
      by simp
    then show ?thesis using Suc_leD by blast
  next
    case False
    then show ?thesis by simp
  qed
qed

lemma waitNextMillis_stuck:
  "\<forall>j\<ge>k. now j - EPOCH \<le> lastTimestamp' \<Longrightarrow> waitNextMillis now k lastTimestamp' = None"
proof (rule ccontr)
  assume stuck: "\<forall>j\<ge>k. now j - EPOCH \<le> lastTimestamp'"
  assume "waitNextMillis now k lastTimestamp' \<noteq> None"
  then obtain y where "waitNextMillis_loop now (Suc k) (now k - EPOCH) lastTimestamp' = Some y"
    by (auto simp: waitNextMillis_def)
  from wait_loop_needs_tick [OF this] stuck show False
    by (metis Suc_leD le_refl not_less)
qed

lemma exhausted_call:
  assumes "now k - EPOCH = lastTimestamp g" "(sequence g + 1) mod 4096 = 0" "k < r"
    and "\<forall>j. k < j \<and> j < r \<longrightarrow> now j - EPOCH \<le> lastTimestamp g"
    and "lastTimestamp g < now r - EPOCH"
  shows "generateId (Num m) now (g, k)
           = Some (Inr (snowflake (now r - EPOCH) m 0),
                   \<lparr>sequence = 0, lastTimestamp = now r - EPOCH\<rparr>, Suc r)"
proof -
  have "waitNextMillis now (Suc k) (lastTimestamp g) = Some (now r - EPOCH, Suc r)"
    using assms(3-5) by (intro waitNextMillis_finds) auto
  with assms(1,2) show ?thesis by (simp add: generateId_exhausted)
qed

lemma stuck_call:
  assumes "now k - EPOCH = lastTimestamp g" "(sequence g + 1) mod 4096 = 0"
    and "\<forall>j>k. now j - EPOCH \<le> lastTimestamp g"
  shows "generateId (Num m) now (g, k) = None"
proof -
  have "waitNextMillis now (Suc k) (lastTimestamp g) = None"
    using assms(3) by (intro waitNextMillis_stuck) auto
  with assms(1,2) show ?thesis by (simp add: generateId_exhausted)
qed

lemma held_clock_run:
  assumes m: "0 \<le> m" "m \<le> 1023"
    and T: "lastTimestamp g < T" "0 \<le> T" "T < 2 ^ 41"
    and held: "k + 4096 < r" "\<forall>j. k \<le> j \<and> j < r \<longrightarrow> now j - EPOCH = T"
    and tick: "T < now r - EPOCH" "now r - EPOCH < 2 ^ 41"
  shows "\<exists>rs g'. generateIds 4097 (Num m) now (g, k) = Some (rs, g', Suc r)
           \<and> length rs = 4097
           \<and> (\<forall>i<4096. \<exists>id'. rs ! i = Inr id' \<and> id_sequence (parseId id') = int i
                  \<and> id_timestamp (parseId id') = T)
           \<and> (\<exists>id'. rs ! 4096 = Inr id' \<and> id_sequence (parseId id') = 0
                  \<and> id_timestamp (parseId id') = now r - EPOCH
                  \<and> T < id_timestamp (parseId id'))"
proof -
  let ?first = "map (\<lambda>i. Inr (snowflake T m (int i)) :: error + int) [0..<4096]"
  let ?g1 = "\<lparr>sequence = 4095, lastTimestamp = T\<rparr>"
  let ?T' = "now r - EPOCH"
  let ?g2 = "\<lparr>sequence = 0, lastTimestamp = ?T'\<rparr>"
  have "generateIds (Suc 4095) (Num m) now (g, k)
          = Some (map (\<lambda>i. Inr (snowflake T m (int i))) [0..<Suc 4095],
                  \<lparr>sequence = int 4095, lastTimestamp = T\<rparr>, Suc (k + 4095))"
    using T(1) held by (intro fixed_clock_run) auto
  then have run: "generateIds 4096 (Num m) now (g, k) = Some (?first, ?g1, k + 4096)"
    by simp
  have last: "generateId (Num m) now (?g1, k + 4096) = Some (Inr (snowflake ?T' m 0), ?g2, Suc r)"
    using held tick(1) by (intro exhausted_call) auto
  have "generateIds (4096 + 1) (Num m) now (g, k)
          = Some (?first @ [Inr (snowflake ?T' m 0)], ?g2, Suc r)"
    unfolding generateIds_append run by (simp add: last)
  then have all: "generateIds 4097 (Num m) now (g, k)
          = Some (?first @ [Inr (snowflake ?T' m 0)], ?g2, Suc r)"
    by simp
  have len: "length ?first = 4096" by simp
  have early: "\<exists>id'. (?first @ [Inr (snowflake ?T' m 0)]) ! i = Inr id'
        \<and> id_sequence (parseId id') = int i \<and> id_timestamp (parseId id') = T"
    if "i < 4096" for i
  proof -
    have "(?first @ [Inr (snowflake ?T' m 0)]) ! i = Inr (snowflake T m (int i))"
      using that by (simp only: nth_append len if_True nth_map length_upt diff_zero nth_upt
          add_0)
    moreover have "parseId (snowflake T m (int i))
        = \<lparr>id_timestamp = T, id_machineId = m, id_sequence = int i, id_date = T + EPOCH\<rparr>"
      using T(2,3) m that by (intro parseId_snowflake_fields) auto
    ultimately show ?thesis by simp
  qed
  have late: "\<exists>id'. (?first @ [Inr (snowflake ?T' m 0)]) ! 4096 = Inr id'
        \<and> id_sequence (parseId id') = 0 \<and> id_timestamp (parseId id') = ?T'
        \<and> T < id_timestamp (parseId id')"
  proof -
    have "(?first @ [Inr (snowflake ?T' m 0)]) ! 4096 = Inr (snowflake ?T' m 0)"
      using nth_append_length [of ?first "Inr (snowflake ?T' m 0)" "[]"]
      by (simp only: len)
    moreover have "parseId (snowflake ?T' m 0)
        = \<lparr>id_timestamp = ?T', id_machineId = m, id_sequence = 0, id_date = ?T' + EPOCH\<rparr>"
      using T(2) tick m by (intro parseId_snowflake_fields) auto
    ultimately show ?thesis using tick(1) by simp
  qed
  have "length (?first @ [Inr (snowflake ?T' m 0)]) = 4097" by simp
  with all early late show ?thesis by blast
qed

section \<open>Properties of the generator\<close>

text \<open>
  C2.  In any run of calls from one generator (no matter which of them fail), the
  identifiers returned by the successful calls are strictly increasing, hence pairwise
  distinct.  The node identifier is in range and the run starts from a state whose
  sequence is in range, as every state the code reaches is.  The run need not even have
  a clock that never decreases: a reading below \<open>lastTimestamp\<close> makes the call fail and
  leaves the state alone.
\<close>

theorem generateIds_strictly_increasing:
  assumes "0 \<le> m" "m \<le> 1023" "0 \<le> sequence g" "sequence g \<le> 4095"
    and "generateIds n (Num m) now (g, k) = Some (rs, w)"
  shows "sorted_wrt (<) (minted rs) \<and> distinct (minted rs)"
  using generateIds_increasing [OF assms] by (simp add: strict_sorted_iff)

theorem generateIds_strictly_increasing_witness:
  "(0::int) \<le> 3 \<and> (3::int) \<le> 1023
   \<and> 0 \<le> sequence initial_generator \<and> sequence initial_generator \<le> 4095
   \<and> generateIds 4 (Num 3) (\<lambda>k. if k < 3 then EPOCH + 5 else EPOCH + 7) (initial_generator, 0)
       = Some ([Inr 20983808, Inr 20983809, Inr 20983810, Inr 29372416],
               \<lparr>sequence = 0, lastTimestamp = 7\<rparr>, 4)
   \<and> sorted_wrt (<) (minted [Inr 20983808, Inr 20983809, Inr 20983810, Inr 29372416])
   \<and> distinct (minted [Inr 20983808, Inr 20983809, Inr 20983810, Inr 29372416])"
proof -
  have a: "(0::int) \<le> 3" and b: "(3::int) \<le> 1023"
    and c: "0 \<le> sequence initial_generator" and d: "sequence initial_generator \<le> 4095"
    by (simp_all add: initial_generator_def)
  from generateIds_strictly_increasing [OF a b c d clock_run] a b c d clock_run
  show ?thesis by blast
qed

text \<open>
  C3.  When the clock reading, in milliseconds since the epoch, is below \<open>lastTimestamp\<close>,
  \<open>generateId\<close> fails with an error that carries the size of the regression, a positive
  number of milliseconds, and the generator is returned as it was: neither
  \<open>lastTimestamp\<close> nor \<open>sequence\<close> changes.  This holds for every node identifier.
\<close>

theorem generateId_clock_skew:
  "now k - EPOCH < lastTimestamp g \<Longrightarrow>
     generateId machineId' now (g, k)
       = Some (Inl (ClockMovedBackward (lastTimestamp g - (now k - EPOCH))), g, Suc k)
     \<and> 0 < lastTimestamp g - (now k - EPOCH)"
  by (simp add: generateId_skew)

theorem generateId_clock_skew_witness:
  "(\<lambda>k. EPOCH + 4000) (0::nat) - EPOCH < lastTimestamp \<lparr>sequence = 7, lastTimestamp = 5000\<rparr>
   \<and> generateId (Num 3) (\<lambda>k. EPOCH + 4000) (\<lparr>sequence = 7, lastTimestamp = 5000\<rparr>, 0)
       = Some (Inl (ClockMovedBackward 1000), \<lparr>sequence = 7, lastTimestamp = 5000\<rparr>, 1)"
proof -
  have h: "(\<lambda>k. EPOCH + 4000) (0::nat) - EPOCH < lastTimestamp \<lparr>sequence = 7, lastTimestamp = 5000\<rparr>"
    by simp
  from generateId_clock_skew [OF h, of "Num 3"] h show ?thesis by simp
qed

text \<open>
  C4.  When the clock reading equals \<open>lastTimestamp\<close>, \<open>generateId\<close> sets the sequence to
  \<open>(sequence + 1) mod 4096\<close>.  If that is not 0, the identifier carries the same timestamp and
  the new sequence.  If it is 0, the call reads the clock until a reading exceeds
  \<open>lastTimestamp\<close> and returns an identifier with that reading as timestamp and sequence 0;
  it does not return while the clock stays at or below \<open>lastTimestamp\<close>.  Hence, from a
  generator whose \<open>lastTimestamp\<close> is below \<open>T\<close>, with the clock held at \<open>T\<close> until it
  moves forward at some reading after the first 4097: the first 4096 calls return
  identifiers whose parsed timestamp is \<open>T\<close> and whose parsed sequences are 0, 1, ..., 4095,
  and the next call returns an identifier with a greater timestamp and sequence 0.
\<close>

theorem generateId_sequence_within_millisecond:
  assumes "0 \<le> m" "m \<le> 1023"
  shows
    "(\<forall>now g k. now k - EPOCH = lastTimestamp g \<and> (sequence g + 1) mod 4096 \<noteq> 0 \<longrightarrow>
        generateId (Num m) now (g, k)
          = Some (Inr (snowflake (lastTimestamp g) m ((sequence g + 1) mod 4096)),
                  \<lparr>sequence = (sequence g + 1) mod 4096, lastTimestamp = lastTimestamp g\<rparr>,
                  Suc k))
   \<and> (\<forall>now g k r. now k - EPOCH = lastTimestamp g \<and> (sequence g + 1) mod 4096 = 0
          \<and> k < r \<and> (\<forall>j. k < j \<and> j < r \<longrightarrow> now j - EPOCH \<le> lastTimestamp g)
          \<and> lastTimestamp g < now r - EPOCH \<longrightarrow>
        generateId (Num m) now (g, k)
          = Some (Inr (snowflake (now r - EPOCH) m 0),
                  \<lparr>sequence = 0, lastTimestamp = now r - EPOCH\<rparr>, Suc r))
   \<and> (\<forall>now g k. now k - EPOCH = lastTimestamp g \<and> (sequence g + 1) mod 4096 = 0
          \<and> (\<forall>j>k. now j - EPOCH \<le> lastTimestamp g) \<longrightarrow>
        generateId (Num m) now (g, k) = None)
   \<and> (\<forall>now g k T r. lastTimestamp g < T \<and> 0 \<le> T \<and> T < 2 ^ 41 \<and> k + 4096 < r
          \<and> (\<forall>j. k \<le> j \<and> j < r \<longrightarrow> now j - EPOCH = T)
          \<and> T < now r - EPOCH \<and> now r - EPOCH < 2 ^ 41 \<longrightarrow>
        (\<exists>rs g'. generateIds 4097 (Num m) now (g, k) = Some (rs, g', Suc r)
           \<and> length rs = 4097
           \<and> (\<forall>i<4096. \<exists>id'. rs ! i = Inr id' \<and> id_sequence (parseId id') = int i
                  \<and> id_timestamp (parseId id') = T)
           \<and> (\<exists>id'. rs ! 4096 = Inr id' \<and> id_sequence (parseId id') = 0
                  \<and> id_timestamp (parseId id') = now r - EPOCH
                  \<and> T < id_timestamp (parseId id'))))"
proof (intro conjI allI impI)
  fix now :: clock and g :: generator and k :: nat
  assume "now k - EPOCH = lastTimestamp g \<and> (sequence g + 1) mod 4096 \<noteq> 0"
  then show "generateId (Num m) now (g, k)
          = Some (Inr (snowflake (lastTimestamp g) m ((sequence g + 1) mod 4096)),
                  \<lparr>sequence = (sequence g + 1) mod 4096, lastTimestamp = lastTimestamp g\<rparr>,
                  Suc k)"
    by (simp add: generateId_same_millisecond)
next
  fix now :: clock and g :: generator and k r :: nat
  assume "now k - EPOCH = lastTimestamp g \<and> (sequence g + 1) mod 4096 = 0
          \<and> k < r \<and> (\<forall>j. k < j \<and> j < r \<longrightarrow> now j - EPOCH \<le> lastTimestamp g)
          \<and> lastTimestamp g < now r - EPOCH"
  then show "generateId (Num m) now (g, k)
          = Some (Inr (snowflake (now r - EPOCH) m 0),
                  \<lparr>sequence = 0, lastTimestamp = now r - EPOCH\<rparr>, Suc r)"
    by (intro exhausted_call) blast+
next
  fix now :: clock and g :: generator and k :: nat
  assume "now k - EPOCH = lastTimestamp g \<and> (sequence g + 1) mod 4096 = 0
          \<and> (\<forall>j>k. now j - EPOCH \<le> lastTimestamp g)"
  then show "generateId (Num m) now (g, k) = None"
    by (intro stuck_call) blast+
next
  fix now :: clock and g :: generator and k :: nat and T :: int and r :: nat
  assume "lastTimestamp g < T \<and> 0 \<le> T \<and> T < 2 ^ 41 \<and> k + 4096 < r
          \<and> (\<forall>j. k \<le> j \<and> j < r \<longrightarrow> now j - EPOCH = T)
          \<and> T < now r - EPOCH \<and> now r - EPOCH < 2 ^ 41"
  then show "\<exists>rs g'. generateIds 4097 (Num m) now (g, k) = Some (rs, g', Suc r)
           \<and> length rs = 4097
           \<and> (\<forall>i<4096. \<exists>id'. rs ! i = Inr id' \<and> id_sequence (parseId id') = int i
                  \<and> id_timestamp (parseId id') = T)
           \<and> (\<exists>id'. rs ! 4096 = Inr id' \<and> id_sequence (parseId id') = 0
                  \<and> id_timestamp (parseId id') = now r - EPOCH
                  \<and> T < id_timestamp (parseId id'))"
    using assms by (intro held_clock_run) blast+
qed

theorem generateId_sequence_within_millisecond_witness:
  "(0::int) \<le> 3 \<and> (3::int) \<le> 1023
   \<and> generateId (Num 3) (\<lambda>j. EPOCH + 5) (\<lparr>sequence = 41, lastTimestamp = 5\<rparr>, 0)
       = Some (Inr (snowflake 5 3 42), \<lparr>sequence = 42, lastTimestamp = 5\<rparr>, 1)
   \<and> generateId (Num 3) (\<lambda>j. if j < 3 then EPOCH + 5 else EPOCH + 9)
         (\<lparr>sequence = 4095, lastTimestamp = 5\<rparr>, 0)
       = Some (Inr (snowflake 9 3 0), \<lparr>sequence = 0, lastTimestamp = 9\<rparr>, 4)
   \<and> generateId (Num 3) (\<lambda>j. EPOCH + 5) (\<lparr>sequence = 4095, lastTimestamp = 5\<rparr>, 0) = None
   \<and> (\<exists>rs g'. generateIds 4097 (Num 3) (\<lambda>j. if j < 5000 then EPOCH + 5 else EPOCH + 6)
                  (initial_generator, 0) = Some (rs, g', 5001)
         \<and> (\<exists>id'. rs ! 4095 = Inr id' \<and> id_sequence (parseId id') = 4095
                \<and> id_timestamp (parseId id') = 5)
         \<and> (\<exists>id'. rs ! 4096 = Inr id' \<and> id_sequence (parseId id') = 0
                \<and> id_timestamp (parseId id') = 6))"
proof -
  have m: "(0::int) \<le> 3" "(3::int) \<le> 1023" by simp_all
  note inst = generateId_sequence_within_millisecond [OF m]
  note same = inst [THEN conjunct1, rule_format]
  note wrap = inst [THEN conjunct2, THEN conjunct1, rule_format]
  note stuck = inst [THEN conjunct2, THEN conjunct2, THEN conjunct1, rule_format]
  note held = inst [THEN conjunct2, THEN conjunct2, THEN conjunct2, rule_format]
  let ?g = "\<lparr>sequence = 41, lastTimestamp = 5\<rparr>"
  let ?full = "\<lparr>sequence = 4095, lastTimestamp = 5\<rparr>"
  let ?fixed = "\<lambda>j::nat. EPOCH + 5"
  let ?tick = "\<lambda>j::nat. if j < 3 then EPOCH + 5 else EPOCH + 9"
  let ?held = "\<lambda>j::nat. if j < 5000 then EPOCH + 5 else EPOCH + 6"
  have a: "generateId (Num 3) ?fixed (?g, 0)
       = Some (Inr (snowflake 5 3 42), \<lparr>sequence = 42, lastTimestamp = 5\<rparr>, 1)"
    using same [where now = ?fixed and k = 0 and g = ?g] by simp
  have b: "generateId (Num 3) ?tick (?full, 0)
       = Some (Inr (snowflake 9 3 0), \<lparr>sequence = 0, lastTimestamp = 9\<rparr>, 4)"
    using wrap [where now = ?tick and k = 0 and g = ?full and r = 3] by simp
  have c: "generateId (Num 3) ?fixed (?full, 0) = None"
    using stuck [where now = ?fixed and k = 0 and g = ?full] by simp
  have d: "\<exists>rs g'. generateIds 4097 (Num 3) ?held (initial_generator, 0) = Some (rs, g', 5001)
         \<and> (\<exists>id'. rs ! 4095 = Inr id' \<and> id_sequence (parseId id') = 4095
                \<and> id_timestamp (parseId id') = 5)
         \<and> (\<exists>id'. rs ! 4096 = Inr id' \<and> id_sequence (parseId id') = 0
                \<and> id_timestamp (parseId id') = 6)"
  proof -
    have "lastTimestamp initial_generator < 5 \<and> (0::int) \<le> 5 \<and> (5::int) < 2 ^ 41
          \<and> (0::nat) + 4096 < 5000
          \<and> (\<forall>j. 0 \<le> j \<and> j < 5000 \<longrightarrow> ?held j - EPOCH = 5)
          \<and> 5 < ?held 5000 - EPOCH \<and> ?held 5000 - EPOCH < 2 ^ 41"
      by (simp add: initial_generator_def)
    from held [where now = ?held and k = 0 and g = initial_generator and T = 5 and r = 5000,
        OF this]
    obtain rs g' where
      run: "generateIds 4097 (Num 3) ?held (initial_generator, 0) = Some (rs, g', Suc 5000)"
      and early: "\<forall>i<4096. \<exists>id'. rs ! i = Inr id' \<and> id_sequence (parseId id') = int i
                  \<and> id_timestamp (parseId id') = 5"
      and late: "\<exists>id'. rs ! 4096 = Inr id' \<and> id_sequence (parseId id') = 0
                  \<and> id_timestamp (parseId id') = ?held 5000 - EPOCH"
      by blast
    from early have "(4095::nat) < 4096 \<longrightarrow> (\<exists>id'. rs ! 4095 = Inr id'
        \<and> id_sequence (parseId id') = int 4095 \<and> id_timestamp (parseId id') = 5)"
      by (rule spec)
    then have "\<exists>id'. rs ! 4095 = Inr id' \<and> id_sequence (parseId id') = 4095
                  \<and> id_timestamp (parseId id') = 5"
      by simp
    moreover from late have "\<exists>id'. rs ! 4096 = Inr id' \<and> id_sequence (parseId id') = 0
                  \<and> id_timestamp (parseId id') = 6"
      by simp
    moreover from run
    have "generateIds 4097 (Num 3) ?held (initial_generator, 0) = Some (rs, g', 5001)"
      by simp
    ultimately show ?thesis by blast
  qed
  from m a b c d show ?thesis by blast
qed

text \<open>
  C5.  For a timestamp below \<open>2^41\<close>, a node identifier of at most 1023 and a sequence of
  at most 4095, none negative, \<open>parseId\<close> of \<open>(t << 22) | (m << 12) | s\<close> returns \<open>t\<close>,
  \<open>m\<close> and \<open>s\<close> (and the date of \<open>t\<close>).  Hence two such identifiers of one node are equal
  exactly when their timestamps and sequences are, and identifiers of two different nodes
  are different.
\<close>

theorem parseId_snowflake:
  assumes "0 \<le> t" "t < 2 ^ 41" "0 \<le> m" "m \<le> 1023" "0 \<le> s" "s \<le> 4095"
  shows "snowflake t m s = push_bit 22 t OR push_bit 12 m OR s
    \<and> parseId (snowflake t m s)
        = \<lparr>id_timestamp = t, id_machineId = m, id_sequence = s, id_date = t + EPOCH\<rparr>
    \<and> (\<forall>t' s'. 0 \<le> t' \<and> t' < 2 ^ 41 \<and> 0 \<le> s' \<and> s' \<le> 4095 \<longrightarrow>
          (snowflake t' m s' = snowflake t m s \<longleftrightarrow> (t', s') = (t, s)))
    \<and> (\<forall>t' m' s'. 0 \<le> t' \<and> t' < 2 ^ 41 \<and> 0 \<le> m' \<and> m' \<le> 1023 \<and> 0 \<le> s' \<and> s' \<le> 4095
          \<and> m' \<noteq> m \<longrightarrow> snowflake t' m' s' \<noteq> snowflake t m s)"
proof (intro conjI allI impI)
  show "snowflake t m s = push_bit 22 t OR push_bit 12 m OR s"
    by (simp add: snowflake_def MACHINE_ID_BITS_def SEQUENCE_BITS_def)
  show "parseId (snowflake t m s)
        = \<lparr>id_timestamp = t, id_machineId = m, id_sequence = s, id_date = t + EPOCH\<rparr>"
    using assms by (rule parseId_snowflake_fields)
next
  fix t' s' :: int
  assume r: "0 \<le> t' \<and> t' < 2 ^ 41 \<and> 0 \<le> s' \<and> s' \<le> 4095"
  show "snowflake t' m s' = snowflake t m s \<longleftrightarrow> (t', s') = (t, s)"
  proof
    assume "snowflake t' m s' = snowflake t m s"
    with snowflake_inject [OF assms, of t' m s'] r assms(3,4) show "(t', s') = (t, s)" by simp
  next
    assume "(t', s') = (t, s)"
    then show "snowflake t' m s' = snowflake t m s" by simp
  qed
next
  fix t' m' s' :: int
  assume r: "0 \<le> t' \<and> t' < 2 ^ 41 \<and> 0 \<le> m' \<and> m' \<le> 1023 \<and> 0 \<le> s' \<and> s' \<le> 4095 \<and> m' \<noteq> m"
  show "snowflake t' m' s' \<noteq> snowflake t m s"
  proof
    assume "snowflake t' m' s' = snowflake t m s"
    with snowflake_inject [OF assms, of t' m' s'] r show False by simp
  qed
qed

theorem parseId_snowflake_witness:
  "(0::int) \<le> 215000000000 \<and> (215000000000::int) < 2 ^ 41 \<and> (0::int) \<le> 42 \<and> (42::int) \<le> 1023
   \<and> (0::int) \<le> 7 \<and> (7::int) \<le> 4095
   \<and> parseId (snowflake 215000000000 42 7)
       = \<lparr>id_timestamp = 215000000000, id_machineId = 42, id_sequence = 7,
          id_date = 215000000000 + EPOCH\<rparr>
   \<and> snowflake 215000000000 42 8 \<noteq> snowflake 215000000000 42 7
   \<and> snowflake 215000000000 43 7 \<noteq> snowflake 215000000000 42 7"
proof -
  have h: "(0::int) \<le> 215000000000" "(215000000000::int) < 2 ^ 41" "(0::int) \<le> 42"
    "(42::int) \<le> 1023" "(0::int) \<le> 7" "(7::int) \<le> 4095"
    by simp_all
  note inst = parseId_snowflake [OF h]
  from inst have p: "parseId (snowflake 215000000000 42 7)
       = \<lparr>id_timestamp = 215000000000, id_machineId = 42, id_sequence = 7,
          id_date = 215000000000 + EPOCH\<rparr>" by blast
  from inst have "(0::int) \<le> 215000000000 \<and> (215000000000::int) < 2 ^ 41 \<and> (0::int) \<le> 8 \<and> (8::int) \<le> 4095 \<longrightarrow>
          (snowflake 215000000000 42 8 = snowflake 215000000000 42 7
             \<longleftrightarrow> (215000000000::int, 8::int) = (215000000000, 7))" by blast
  then have q: "snowflake 215000000000 42 8 \<noteq> snowflake 215000000000 42 7" by simp
  from inst have "(0::int) \<le> 215000000000 \<and> (215000000000::int) < 2 ^ 41 \<and> (0::int) \<le> 43
      \<and> (43::int) \<le> 1023 \<and> (0::int) \<le> 7 \<and> (7::int) \<le> 4095 \<and> (43::int) \<noteq> 42
      \<longrightarrow> snowflake 215000000000 43 7 \<noteq> snowflake 215000000000 42 7" by blast
  then have r: "snowflake 215000000000 43 7 \<noteq> snowflake 215000000000 42 7" by simp
  from h p q r show ?thesis by blast
qed

text \<open>
  C8 fails on the code.  With \<open>MACHINE_ID\<close> set to a string that does not start with a
  number, \<open>parseInt\<close> gives \<open>NaN\<close>, both range comparisons are false, and \<open>getMachineId\<close>
  returns \<open>NaN\<close>: neither an integer between 0 and 1023 nor an error.
\<close>

theorem getMachineId_not_a_number:
  "getMachineId (Some ''abc'') hostname = Inr NaN"
  by (simp add: getMachineId_def parseInt_def isWhiteSpace_def isDigit_def Let_def)

end
